theory Spec2Isabelle
  imports Main "HOL-Library.Multiset"
begin

section \<open>ErrorCallout: the title and message shown for an error\<close>

text \<open>
  \<^verbatim>\<open>src/components/Errors/ErrorCallout.tsx\<close>. The component reads four things of the
  error object: \<^verbatim>\<open>error.name\<close>, \<^verbatim>\<open>error.message\<close>, the truthiness of
  \<^verbatim>\<open>error.isAxiosError\<close> and \<^verbatim>\<open>error.response?.status\<close>, which is
  \<^verbatim>\<open>undefined\<close> (here \<open>None\<close>) when the error carries no response. The browser's
  \<^verbatim>\<open>navigator.onLine\<close> is an input of the model.
\<close>

record js_error =
  name :: string
  message :: string
  isAxiosError :: bool
  response_status :: "int option"

record callout =
  title :: string
  body :: string

definition status_eq :: "int option \<Rightarrow> int \<Rightarrow> bool" where
  \<comment> \<open>\<^verbatim>\<open>status === n\<close>: false for \<^verbatim>\<open>undefined\<close>.\<close>
  "status_eq status n = (case status of None \<Rightarrow> False | Some s \<Rightarrow> s = n)"

definition status_ge :: "int option \<Rightarrow> int \<Rightarrow> bool" where
  \<comment> \<open>\<^verbatim>\<open>status >= n\<close>: \<^verbatim>\<open>undefined\<close> converts to NaN, and every comparison with NaN is false.\<close>
  "status_ge status n = (case status of None \<Rightarrow> False | Some s \<Rightarrow> s \<ge> n)"

definition ErrorCallout :: "bool \<Rightarrow> js_error \<Rightarrow> callout" where
  "ErrorCallout onLine error =
     (let isAxiosError = (name error = ''AxiosError'' \<or> isAxiosError error);
          status = response_status error
      in if isAxiosError then
           if status_eq status 404 then
             \<lparr>title = ''Not Found'',
              body = ''This item could not be found in the external database. It may not have been indexed yet or the identifier may be incorrect.''\<rparr>
           else if status_eq status 403 then
             \<lparr>title = ''Access Denied'',
              body = ''Unable to access this resource. You may need to check your API credentials.''\<rparr>
           else if status_ge status 500 then
             \<lparr>title = ''Server Error'',
              body = ''The external service is experiencing issues. Please try again later.''\<rparr>
           else if \<not> onLine then
             \<lparr>title = ''No Internet Connection'',
              body = ''Please check your internet connection and try again.''\<rparr>
           else \<lparr>title = name error, body = message error\<rparr>
         else \<lparr>title = name error, body = message error\<rparr>)"

definition axios_style :: "js_error \<Rightarrow> bool" where
  "axios_style error = (name error = ''AxiosError'' \<or> isAxiosError error)"

section \<open>Transport: the response interceptor of the Zotero client\<close>

text \<open>
  \<^verbatim>\<open>zoteroClient.interceptors.response.use(response => response, async error => ...)\<close>,
  the same in both seeding scripts. A response is read through its status and its headers.
  Header names are lower-case keys, header values are strings; a header that is not there
  reads as \<^verbatim>\<open>undefined\<close> (here \<open>None\<close>).
\<close>

type_synonym headers = "string \<rightharpoonup> string"

record http_response =
  status :: int
  headers :: headers

text \<open>
  What the remote side does with one dispatched request: it answers with a status the
  client accepts, it answers with a status the client rejects (the error then carries the
  response), or no response arrives at all (a network failure).
\<close>

datatype 'b reply = Success 'b | ErrorStatus http_response | NoResponse

record 'req axios_error =
  response :: "http_response option"
  config :: 'req

datatype ('req, 'b) settled = Resolved 'b | Rejected "'req axios_error"

text \<open>
  \<^verbatim>\<open>headers['retry-after'] || headers['backoff'] || 5\<close>. The operator yields its
  left operand when that is truthy; \<^verbatim>\<open>undefined\<close> and the empty string are falsy, every
  other string is truthy. The value is therefore a header's text or the number 5.
\<close>

datatype jsval = Str string | Num nat

definition or_else :: "string option \<Rightarrow> jsval \<Rightarrow> jsval" where
  "or_else v d = (case v of None \<Rightarrow> d | Some s \<Rightarrow> if s = [] then d else Str s)"

definition retryAfter_of :: "headers \<Rightarrow> jsval" where
  "retryAfter_of h = or_else (h ''retry-after'') (or_else (h ''backoff'') (Num 5))"

text \<open>
  \<^verbatim>\<open>Number(retryAfter)\<close>, for the values this model evaluates: a number is itself, and a
  non-empty string of decimal digits is the number it writes. For any other text (a
  fraction, a sign, an HTTP date, ...) the result is \<open>None\<close>: the delay handed to the timer
  is then not determined by this model.
\<close>

definition is_digit :: "char \<Rightarrow> bool" where
  "is_digit c = (48 \<le> (of_char c :: nat) \<and> (of_char c :: nat) \<le> 57)"

definition decimal :: "string \<Rightarrow> nat" where
  "decimal s = foldl (\<lambda>a c. 10 * a + (of_char c - 48)) 0 s"

fun Number :: "jsval \<Rightarrow> nat option" where
  "Number (Num n) = Some n"
| "Number (Str s) = (if s \<noteq> [] \<and> list_all is_digit s then Some (decimal s) else None)"

definition delayMs_of :: "jsval \<Rightarrow> nat option" where
  "delayMs_of retryAfter = map_option (\<lambda>n. n * 1000) (Number retryAfter)"

text \<open>
  The client's observable effects: how many requests it has dispatched, and the delays (in
  milliseconds) of the timers it has awaited, in order.
\<close>

record client_state =
  sent :: nat
  slept :: "nat option list"

text \<open>
  \<open>request\<close> dispatches a request and runs the interceptor on the outcome; the
  interceptor's retry is \<^verbatim>\<open>zoteroClient.request(error.config)\<close>, which passes through
  the interceptor again. \<open>net n req\<close> is the remote side's answer to the \<open>n\<close>-th dispatch.
  The source puts no bound on the number of retries, so the model takes fuel: the number
  of dispatches it may make. \<open>None\<close> is a call that has not settled within the fuel.
\<close>

fun request :: "nat \<Rightarrow> (nat \<Rightarrow> 'req \<Rightarrow> 'b reply) \<Rightarrow> client_state \<Rightarrow> 'req
                  \<Rightarrow> ('req, 'b) settled option \<times> client_state"
and onRejected :: "nat \<Rightarrow> (nat \<Rightarrow> 'req \<Rightarrow> 'b reply) \<Rightarrow> client_state \<Rightarrow> 'req axios_error
                  \<Rightarrow> ('req, 'b) settled option \<times> client_state"
where
  "request 0 net st req = (None, st)"
| "request (Suc k) net st req =
     (let st' = st\<lparr>sent := Suc (sent st)\<rparr>
      in case net (sent st) req of
           Success r \<Rightarrow> (Some (Resolved r), st')
         | ErrorStatus resp \<Rightarrow> onRejected k net st' \<lparr>response = Some resp, config = req\<rparr>
         | NoResponse \<Rightarrow> onRejected k net st' \<lparr>response = None, config = req\<rparr>)"
| "onRejected k net st error =
     (case response error of
        Some resp \<Rightarrow>
          if status resp = 429 \<or> status resp \<ge> 500 then
            let retryAfter = retryAfter_of (headers resp);
                delayMs = delayMs_of retryAfter
            in request k net (st\<lparr>slept := slept st @ [delayMs]\<rparr>) (config error)
          else (Some (Rejected error), st)
      | None \<Rightarrow> (Some (Rejected error), st))"

section \<open>Tag Indexer: \<^verbatim>\<open>categorizeZoteroTags\<close>\<close>

text \<open>
  \<^verbatim>\<open>String.prototype.toLowerCase\<close> on the letters A to Z; every other character is
  left as it is (strings here are byte strings, so only ASCII case is folded).
\<close>

definition toLowerCase_char :: "char \<Rightarrow> char" where
  "toLowerCase_char c =
     (case map_of (zip ''ABCDEFGHIJKLMNOPQRSTUVWXYZ'' ''abcdefghijklmnopqrstuvwxyz'') c of
        Some l \<Rightarrow> l
      | None \<Rightarrow> c)"

definition toLowerCase :: "string \<Rightarrow> string" where
  "toLowerCase s = map toLowerCase_char s"

text \<open>
  \<^verbatim>\<open>Array.prototype.sort(cmp)\<close> as a stable insertion sort: \<open>x\<close> goes before \<open>y\<close> when
  \<open>cmp x y \<le> 0\<close>. The comparator of the source is
  \<^verbatim>\<open>(a, b) => b.localeCompare(a)\<close>; \<^verbatim>\<open>localeCompare\<close> depends on the host's locale
  and is a parameter of the model.
\<close>

fun insert_by :: "('a \<Rightarrow> 'a \<Rightarrow> int) \<Rightarrow> 'a \<Rightarrow> 'a list \<Rightarrow> 'a list" where
  "insert_by cmp x [] = [x]"
| "insert_by cmp x (y # ys) = (if cmp x y \<le> 0 then x # y # ys else y # insert_by cmp x ys)"

fun js_sort :: "('a \<Rightarrow> 'a \<Rightarrow> int) \<Rightarrow> 'a list \<Rightarrow> 'a list" where
  "js_sort cmp [] = []"
| "js_sort cmp (x # xs) = insert_by cmp x (js_sort cmp xs)"

record ('p, 'z) ZTagEntry =
  token :: string
  roam :: "'p list"
  zotero :: "'z list"

datatype js_exception = TypeError

text \<open>
  The loop over the sorted tokens, with its two variables \<^verbatim>\<open>tokenIndex\<close> (a Map from
  normalized token to position) and \<^verbatim>\<open>output\<close>. Reading
  \<^verbatim>\<open>output[existingIndex].zotero\<close> at a position the array does not have throws a
  TypeError.
\<close>

text \<open>
  Modelled from the spec: the expression the source elides in \<^verbatim>\<open>zotero.push(...)\<close> and
  \<^verbatim>\<open>zotero: [...]\<close>. It is the one source reference of the raw token, \<open>tagMap elem\<close>
  ("append the new source reference to that entry"); what a source reference is stays a
  type parameter.
\<close>

fun tag_loop :: "(string \<Rightarrow> 'z) \<Rightarrow> string list \<Rightarrow> (string \<rightharpoonup> nat) \<Rightarrow> ('p, 'z) ZTagEntry list
                   \<Rightarrow> js_exception + (string \<rightharpoonup> nat) \<times> ('p, 'z) ZTagEntry list" where
  "tag_loop tagMap [] tokenIndex output = Inr (tokenIndex, output)"
| "tag_loop tagMap (elem # rest) tokenIndex output =
     (let normalizedToken = toLowerCase elem;
          existingIndex = tokenIndex normalizedToken
      in case existingIndex of
           Some i \<Rightarrow>
             if i < length output then
               tag_loop tagMap rest tokenIndex
                 (output[i := (output ! i)\<lparr>zotero := zotero (output ! i) @ [tagMap elem]\<rparr>])
             else Inl TypeError
         | None \<Rightarrow>
             let newIndex = length output
             in tag_loop tagMap rest (tokenIndex(normalizedToken \<mapsto> newIndex))
                  (output @ [\<lparr>token = normalizedToken, roam = [], zotero = [tagMap elem]\<rparr>]))"

definition categorizeZoteroTags ::
  "(string \<Rightarrow> string \<Rightarrow> int) \<Rightarrow> (string \<Rightarrow> 'z) \<Rightarrow> string list
     \<Rightarrow> js_exception + ('p, 'z) ZTagEntry list" where
  "categorizeZoteroTags localeCompare tagMap z_data =
     (case tag_loop tagMap (js_sort (\<lambda>a b. localeCompare b a) z_data) Map.empty [] of
        Inl e \<Rightarrow> Inl e
      | Inr (tokenIndex, output) \<Rightarrow> Inr output)"

text \<open>
  The relation between the two loop variables that every iteration keeps: the Map sends a
  token to a position of \<open>output\<close> that holds this token, and every position of
  \<open>output\<close> is the Map's entry for its token.
\<close>

definition index_ok :: "(string \<rightharpoonup> nat) \<Rightarrow> ('p, 'z) ZTagEntry list \<Rightarrow> bool" where
  "index_ok tokenIndex output \<longleftrightarrow>
     (\<forall>t i. tokenIndex t = Some i \<longrightarrow> i < length output \<and> token (output ! i) = t) \<and>
     (\<forall>j < length output. tokenIndex (token (output ! j)) = Some j)"

section \<open>Delta Merger: \<^verbatim>\<open>matchWithCurrentData\<close>\<close>

text \<open>
  An item is read through \<^verbatim>\<open>item.data.key\<close> only; the version is carried along to tell
  two states of one item apart. Both properties of the update are optional
  (\<^verbatim>\<open>{ modified = [], deleted = [] } = update\<close>), and so is the array (\<^verbatim>\<open>arr = []\<close>).
\<close>

record item =
  key :: string
  version :: nat

record update =
  modified :: "item list option"
  deleted :: "string list option"

text \<open>
  A JavaScript array may have empty slots: \<open>None\<close> is a slot that holds nothing.
  \<^verbatim>\<open>a[i] = v\<close> beyond the end of the array extends it, leaving the slots between
  the old end and \<open>i\<close> empty.
\<close>

type_synonym 'a js_array = "'a option list"

definition array_set :: "'a js_array \<Rightarrow> nat \<Rightarrow> 'a \<Rightarrow> 'a js_array" where
  "array_set a i v =
     (if i < length a then a[i := Some v] else a @ replicate (i - length a) None @ [Some v])"

text \<open>
  \<^verbatim>\<open>arr.filter((item, index) => ...)\<close>: the callback is not called on empty slots,
  \<^verbatim>\<open>index\<close> is the position in \<^verbatim>\<open>arr\<close>, and the result has no empty slot. The
  callback records \<^verbatim>\<open>keyToIndex.set(item.data.key, index)\<close> for every item it keeps.
\<close>

fun filter_loop :: "string list \<Rightarrow> (string \<rightharpoonup> nat) \<Rightarrow> nat \<Rightarrow> item js_array
                      \<Rightarrow> (string \<rightharpoonup> nat) \<times> item js_array" where
  "filter_loop deletedSet keyToIndex index [] = (keyToIndex, [])"
| "filter_loop deletedSet keyToIndex index (None # rest) =
     filter_loop deletedSet keyToIndex (Suc index) rest"
| "filter_loop deletedSet keyToIndex index (Some item # rest) =
     (if key item \<in> set deletedSet then filter_loop deletedSet keyToIndex (Suc index) rest
      else case filter_loop deletedSet (keyToIndex(key item \<mapsto> index)) (Suc index) rest of
             (keyToIndex', datastore) \<Rightarrow> (keyToIndex', Some item # datastore))"

fun merge_loop :: "(string \<rightharpoonup> nat) \<Rightarrow> item list \<Rightarrow> item js_array \<Rightarrow> item js_array" where
  "merge_loop keyToIndex [] datastore = datastore"
| "merge_loop keyToIndex (item # rest) datastore =
     (case keyToIndex (key item) of
        Some existingIndex \<Rightarrow> merge_loop keyToIndex rest (array_set datastore existingIndex item)
      | None \<Rightarrow> merge_loop keyToIndex rest (datastore @ [Some item]))"

text \<open>
  The function reads \<^verbatim>\<open>modified\<close> and \<^verbatim>\<open>deleted\<close> of its first argument and nothing
  else of it, so it is defined on every extension of the record.
\<close>

definition matchWithCurrentData :: "'m update_scheme \<Rightarrow> item js_array option \<Rightarrow> item js_array" where
  "matchWithCurrentData upd arr =
     (let modified' = (case modified upd of None \<Rightarrow> [] | Some m \<Rightarrow> m);
          deleted' = (case deleted upd of None \<Rightarrow> [] | Some d \<Rightarrow> d);
          arr' = (case arr of None \<Rightarrow> [] | Some a \<Rightarrow> a)
      in case filter_loop deleted' Map.empty 0 arr' of
           (keyToIndex, datastore) \<Rightarrow> merge_loop keyToIndex modified' datastore)"

text \<open>The items of the spec's example scenario.\<close>

definition A1 :: item where "A1 = \<lparr>key = ''A'', version = 1\<rparr>"
definition B1 :: item where "B1 = \<lparr>key = ''B'', version = 1\<rparr>"
definition B2 :: item where "B2 = \<lparr>key = ''B'', version = 2\<rparr>"
definition C1 :: item where "C1 = \<lparr>key = ''C'', version = 1\<rparr>"

text \<open>
  The spec's contract \<^verbatim>\<open>merge(snapshot, delta)\<close> speaks of generations: the snapshot
  has one, and the delta was computed against a base that has one. The source function
  takes the item array and the update object; a delta that carries its base generation is
  an update with one more property. The source has no \<^verbatim>\<open>throw\<close>: every call returns
  an array.
\<close>

datatype merge_error = VersionConflict

record snapshot =
  items :: "item js_array"
  generation :: nat

record delta = update +
  base_generation :: nat

definition stale_base :: "snapshot \<Rightarrow> delta \<Rightarrow> bool" where
  "stale_base s d \<longleftrightarrow> base_generation d + 2 < generation s"

definition merge :: "snapshot \<Rightarrow> delta \<Rightarrow> merge_error + item js_array" where
  "merge s d = Inr (matchWithCurrentData d (Some (items s)))"

section \<open>Paginator: \<^verbatim>\<open>fetchAdditionalData\<close>\<close>

text \<open>
  What can be observed of the requests: a request is issued, a request settles. The
  arguments of \<^verbatim>\<open>zoteroClient.get\<close> are elided in the source; a request is named by
  the value \<^verbatim>\<open>start\<close> has when it is issued. The number of requests in flight after a
  sequence of events is the number issued minus the number settled.
\<close>

datatype event = Issue nat | Settle nat

fun in_flight :: "event list \<Rightarrow> int" where
  "in_flight [] = 0"
| "in_flight (Issue s # es) = in_flight es + 1"
| "in_flight (Settle s # es) = in_flight es - 1"

text \<open>
  \<^verbatim>\<open>Promise.all(batch)\<close>. The responses arrive in some order; when one arrives
  fulfilled, its value is stored under the position of its promise, and when one arrives
  rejected, the combined promise rejects with that error at once. When all have arrived
  fulfilled, the combined promise fulfils with the values in the order of the promises.
  \<open>get s\<close> is the outcome of the request with \<^verbatim>\<open>start\<close> = \<open>s\<close>; the order of arrival
  is by \<open>latency\<close>, an arbitrary function of the request.
\<close>

fun settle_all :: "(nat \<Rightarrow> 'e + 'v) \<Rightarrow> nat list \<Rightarrow> (nat \<rightharpoonup> 'v) \<Rightarrow> event list
                     \<Rightarrow> ('e + (nat \<rightharpoonup> 'v)) \<times> event list" where
  "settle_all get [] values tr = (Inr values, tr)"
| "settle_all get (s # ss) values tr =
     (case get s of
        Inl e \<Rightarrow> (Inl e, tr @ [Settle s])
      | Inr v \<Rightarrow> settle_all get ss (values(s \<mapsto> v)) (tr @ [Settle s]))"

definition Promise_all :: "(nat \<Rightarrow> nat) \<Rightarrow> (nat \<Rightarrow> 'e + 'v) \<Rightarrow> nat list \<Rightarrow> event list
                             \<Rightarrow> ('e + 'v list) \<times> event list" where
  "Promise_all latency get batch tr =
     (case settle_all get (sort_key latency batch) Map.empty tr of
        (Inl e, tr') \<Rightarrow> (Inl e, tr')
      | (Inr values, tr') \<Rightarrow> (Inr (List.map_filter values batch), tr'))"

definition CONCURRENCY_LIMIT :: nat where
  "CONCURRENCY_LIMIT = 5"

text \<open>
  The outer loop, \<^verbatim>\<open>for (let i = 0; i < nbExtraCalls; i += CONCURRENCY_LIMIT)\<close>. The
  inner loop issues the requests of the batch one after the other, with
  \<^verbatim>\<open>start\<close> = \<open>100 * (j + 1)\<close> for \<open>j\<close> from \<open>i\<close> up to
  \<^verbatim>\<open>Math.min(i + CONCURRENCY_LIMIT, nbExtraCalls)\<close>; the loop then awaits all of them
  and pushes their data, flattened, onto \<^verbatim>\<open>results\<close>. A rejection ends the function.
  The function returns its outcome together with the events it caused.
\<close>

function fetch_loop :: "(nat \<Rightarrow> nat) \<Rightarrow> (nat \<Rightarrow> 'e + 'a list) \<Rightarrow> nat \<Rightarrow> nat \<Rightarrow> 'a list \<Rightarrow> event list
                          \<Rightarrow> ('e + 'a list) \<times> event list" where
  "fetch_loop latency get nbExtraCalls i results tr =
     (if i < nbExtraCalls then
        let batch = map (\<lambda>j. 100 * (j + 1)) [i ..< min (i + CONCURRENCY_LIMIT) nbExtraCalls]
        in case Promise_all latency get batch (tr @ map Issue batch) of
             (Inl e, tr') \<Rightarrow> (Inl e, tr')
           | (Inr batchResults, tr') \<Rightarrow>
               fetch_loop latency get nbExtraCalls (i + CONCURRENCY_LIMIT)
                 (results @ concat batchResults) tr'
      else (Inr results, tr))"
  by pat_completeness auto
termination
  by (relation "measure (\<lambda>(latency, get, nbExtraCalls, i, results, tr). nbExtraCalls - i)")
     (auto simp: CONCURRENCY_LIMIT_def)

definition fetchAdditionalData :: "(nat \<Rightarrow> nat) \<Rightarrow> (nat \<Rightarrow> 'e + 'a list) \<Rightarrow> nat
                                     \<Rightarrow> ('e + 'a list) \<times> event list" where
  "fetchAdditionalData latency get nbExtraCalls = fetch_loop latency get nbExtraCalls 0 [] []"

section \<open>Sync Coordinator: \<^verbatim>\<open>requestSync\<close>\<close>

text \<open>
  Modelled from the spec: the Sync Coordinator, of which the repository's source files
  hold nothing. Per identity the coordinator is in one of the phases
  \<open>Idle \<rightarrow> Fetching \<rightarrow> Merging \<rightarrow> Publishing \<rightarrow> Idle\<close>; a cycle that fails in \<open>Fetching\<close> or
  \<open>Merging\<close> reverts to \<open>Idle\<close>. A call of \<^verbatim>\<open>requestSync\<close> gets the number of the
  cycle whose result it will receive: the cycle in progress for the identity when there is
  one ("receives the result of the in-progress cycle rather than starting a duplicate"),
  else a new cycle. A new cycle looks the cache up and drives a Paginator fetch only when
  the cache holds no fresh snapshot ("cache lookup, (if stale) Paginator fetch");
  \<open>fetch_count\<close> is the instrumentation hook that counts these fetch cycles, \<open>fresh\<close> the
  cache entries within the staleness horizon, and \<open>outcome\<close> the result of every cycle that
  has ended.
\<close>

datatype phase = Idle | Fetching | Merging | Publishing

datatype sync_error = SyncError

record ('id, 'snap) coordinator =
  phase_of :: "'id \<Rightarrow> phase"
  cycle_of :: "'id \<rightharpoonup> nat"
  fetch_count :: "'id \<Rightarrow> nat"
  fresh :: "'id \<rightharpoonup> 'snap"
  outcome :: "nat \<rightharpoonup> sync_error + 'snap"
  cycles :: nat

definition requestSync :: "'id \<Rightarrow> ('id, 'snap) coordinator \<Rightarrow> nat \<times> ('id, 'snap) coordinator" where
  "requestSync ident st =
     (case cycle_of st ident of
        Some c \<Rightarrow> (c, st)
      | None \<Rightarrow>
          let c = cycles st
          in case fresh st ident of
               Some s \<Rightarrow> (c, st\<lparr>outcome := (outcome st)(c \<mapsto> Inr s), cycles := Suc c\<rparr>)
             | None \<Rightarrow>
                 (c, st\<lparr>phase_of := (phase_of st)(ident := Fetching),
                        cycle_of := (cycle_of st)(ident \<mapsto> c),
                        fetch_count := (fetch_count st)(ident := Suc (fetch_count st ident)),
                        cycles := Suc c\<rparr>))"

text \<open>
  What happens to a coordinator, one event at a time: a call of \<^verbatim>\<open>requestSync\<close>, the
  end of the fetch, the end of the merge, the publication of the new snapshot (which also
  writes the cache), and the failure of a cycle.
\<close>

datatype ('id, 'snap) sync_event =
  Request 'id | Fetched 'id | Merged 'id | Published 'id 'snap | Failed 'id

fun coordinator_step :: "('id, 'snap) sync_event \<Rightarrow> ('id, 'snap) coordinator \<Rightarrow> ('id, 'snap) coordinator" where
  "coordinator_step (Request ident) st = snd (requestSync ident st)"
| "coordinator_step (Fetched ident) st =
     (if phase_of st ident = Fetching then st\<lparr>phase_of := (phase_of st)(ident := Merging)\<rparr> else st)"
| "coordinator_step (Merged ident) st =
     (if phase_of st ident = Merging then st\<lparr>phase_of := (phase_of st)(ident := Publishing)\<rparr> else st)"
| "coordinator_step (Published ident s) st =
     (case cycle_of st ident of
        Some c \<Rightarrow>
          if phase_of st ident = Publishing then
            st\<lparr>phase_of := (phase_of st)(ident := Idle),
               cycle_of := (cycle_of st)(ident := None),
               fresh := (fresh st)(ident \<mapsto> s),
               outcome := (outcome st)(c \<mapsto> Inr s)\<rparr>
          else st
      | None \<Rightarrow> st)"
| "coordinator_step (Failed ident) st =
     (case cycle_of st ident of
        Some c \<Rightarrow>
          if phase_of st ident = Fetching \<or> phase_of st ident = Merging then
            st\<lparr>phase_of := (phase_of st)(ident := Idle),
               cycle_of := (cycle_of st)(ident := None),
               outcome := (outcome st)(c \<mapsto> Inl SyncError)\<rparr>
          else st
      | None \<Rightarrow> st)"

fun coordinator_run :: "('id, 'snap) sync_event list \<Rightarrow> ('id, 'snap) coordinator \<Rightarrow> ('id, 'snap) coordinator" where
  "coordinator_run [] st = st"
| "coordinator_run (e # es) st = coordinator_run es (coordinator_step e st)"

text \<open>The events that end the cycle of an identity.\<close>

fun completes :: "'id \<Rightarrow> ('id, 'snap) sync_event \<Rightarrow> bool" where
  "completes ident (Published i s) = (i = ident)"
| "completes ident (Failed i) = (i = ident)"
| "completes ident e = False"

definition idle_coordinator :: "('id, 'snap) coordinator" where
  "idle_coordinator =
     \<lparr>phase_of = (\<lambda>i. Idle), cycle_of = Map.empty, fetch_count = (\<lambda>i. 0),
      fresh = Map.empty, outcome = Map.empty, cycles = 0\<rparr>"

section \<open>Properties of ErrorCallout\<close>

text \<open>
  C10. For an Axios-style error the title follows a fixed precedence: status 404 gives
  "Not Found", else 403 gives "Access Denied", else a status of 500 or more gives
  "Server Error", and only when none of these applies and the browser is offline the title
  is "No Internet Connection"; each title comes with its fixed message, whatever
  \<^verbatim>\<open>navigator.onLine\<close> says for the first three. Every error that is not Axios-style is
  shown with its own name as title and its own message unchanged.
\<close>

theorem ErrorCallout_precedence:
  "(axios_style error \<and> response_status error = Some 404 \<longrightarrow>
      title (ErrorCallout onLine error) = ''Not Found'' \<and>
      body (ErrorCallout onLine error) = ''This item could not be found in the external database. It may not have been indexed yet or the identifier may be incorrect.'') \<and>
   (axios_style error \<and> response_status error = Some 403 \<longrightarrow>
      title (ErrorCallout onLine error) = ''Access Denied'' \<and>
      body (ErrorCallout onLine error) = ''Unable to access this resource. You may need to check your API credentials.'') \<and>
   (axios_style error \<and> response_status error = Some s \<and> s \<ge> 500 \<longrightarrow>
      title (ErrorCallout onLine error) = ''Server Error'' \<and>
      body (ErrorCallout onLine error) = ''The external service is experiencing issues. Please try again later.'') \<and>
   (axios_style error \<and> response_status error \<noteq> Some 404 \<and> response_status error \<noteq> Some 403 \<and>
      \<not> status_ge (response_status error) 500 \<longrightarrow>
      (title (ErrorCallout onLine error) = ''No Internet Connection'' \<longleftrightarrow>
         \<not> onLine \<or> name error = ''No Internet Connection'') \<and>
      (\<not> onLine \<longrightarrow>
         title (ErrorCallout onLine error) = ''No Internet Connection'' \<and>
         body (ErrorCallout onLine error) = ''Please check your internet connection and try again.'') \<and>
      (onLine \<longrightarrow> ErrorCallout onLine error = \<lparr>title = name error, body = message error\<rparr>)) \<and>
   (\<not> axios_style error \<longrightarrow>
      ErrorCallout onLine error = \<lparr>title = name error, body = message error\<rparr>)"
  by (cases "response_status error")
     (auto simp: ErrorCallout_def axios_style_def status_eq_def status_ge_def Let_def)

text \<open>
  C10, at concrete inputs: a 404 received while the browser is offline is still shown as
  "Not Found".
\<close>

theorem ErrorCallout_precedence_witness:
  "axios_style \<lparr>name = ''AxiosError'', message = ''Request failed with status code 404'',
       isAxiosError = True, response_status = Some 404\<rparr> \<and>
   title (ErrorCallout False \<lparr>name = ''AxiosError'', message = ''Request failed with status code 404'',
       isAxiosError = True, response_status = Some 404\<rparr>) = ''Not Found''"
  using ErrorCallout_precedence
    [of "\<lparr>name = ''AxiosError'', message = ''Request failed with status code 404'',
       isAxiosError = True, response_status = Some 404\<rparr>" False 500]
  by (simp add: axios_style_def)

section \<open>Properties of the Transport interceptor\<close>



text \<open>
  C6. When the answer is an error response with a status from 400 to 499 other than 429,
  or no response arrives at all, the call is rejected with that error after this one
  dispatch: the client awaits no timer and dispatches nothing more.
\<close>

theorem interceptor_rejects_at_once:
  "(net (sent st) req = ErrorStatus resp \<and> 400 \<le> status resp \<and> status resp < 500 \<and>
      status resp \<noteq> 429 \<longrightarrow>
      request (Suc k) net st req =
        (Some (Rejected \<lparr>response = Some resp, config = req\<rparr>), st\<lparr>sent := Suc (sent st)\<rparr>)) \<and>
   (net (sent st) req = NoResponse \<longrightarrow>
      request (Suc k) net st req =
        (Some (Rejected \<lparr>response = None, config = req\<rparr>), st\<lparr>sent := Suc (sent st)\<rparr>))"
  by (auto simp: Let_def)

text \<open>
  C6, at concrete inputs: a 404 and a network failure, each with fuel for three
  dispatches, are rejected after the first.
\<close>

theorem interceptor_rejects_at_once_witness:
  "request 3 (\<lambda>n req. ErrorStatus \<lparr>status = 404, headers = Map.empty\<rparr>)
     \<lparr>sent = 0, slept = []\<rparr> ''GET users/1/items'' =
     (Some (Rejected \<lparr>response = Some \<lparr>status = 404, headers = Map.empty\<rparr>,
                      config = ''GET users/1/items''\<rparr>) :: (string, string) settled option,
      \<lparr>sent = 1, slept = []\<rparr>) \<and>
   request 3 (\<lambda>n req. NoResponse) \<lparr>sent = 0, slept = []\<rparr> ''GET users/1/items'' =
     (Some (Rejected \<lparr>response = None, config = ''GET users/1/items''\<rparr>)
        :: (string, string) settled option,
      \<lparr>sent = 1, slept = []\<rparr>)"
proof -
  let ?resp = "\<lparr>status = 404, headers = Map.empty\<rparr>"
  let ?st = "\<lparr>sent = 0, slept = []\<rparr>"
  have "request (Suc 2) (\<lambda>n req. ErrorStatus ?resp) ?st ''GET users/1/items'' =
          (Some (Rejected \<lparr>response = Some ?resp, config = ''GET users/1/items''\<rparr>)
             :: (string, string) settled option,
           ?st\<lparr>sent := Suc (sent ?st)\<rparr>)"
    using interceptor_rejects_at_once
      [of "\<lambda>n req. ErrorStatus ?resp" ?st "''GET users/1/items''" ?resp 2]
    by simp
  moreover have "request (Suc 2) (\<lambda>n req. NoResponse) ?st ''GET users/1/items'' =
          (Some (Rejected \<lparr>response = None, config = ''GET users/1/items''\<rparr>)
             :: (string, string) settled option,
           ?st\<lparr>sent := Suc (sent ?st)\<rparr>)"
    using interceptor_rejects_at_once
      [of "\<lambda>n req. NoResponse" ?st "''GET users/1/items''" ?resp 2]
    by simp
  ultimately show ?thesis
    by (simp add: numeral_3_eq_3)
qed

section \<open>Properties of the Tag Indexer\<close>

lemma toLowerCase_examples:
  "toLowerCase ''AI'' = ''ai''" "toLowerCase ''ai'' = ''ai''" "toLowerCase ''ML'' = ''ml''"
  by (simp_all add: toLowerCase_def toLowerCase_char_def)

lemma index_ok_empty: "index_ok Map.empty []"
  by (simp add: index_ok_def)

lemma index_ok_update:
  assumes "index_ok ti out" and "ti t = Some i"
  shows "index_ok ti (out[i := (out ! i)\<lparr>zotero := zs\<rparr>])"
proof -
  have "token ((out[i := (out ! i)\<lparr>zotero := zs\<rparr>]) ! j) = token (out ! j)" if "j < length out" for j
    using that by (cases "j = i") simp_all
  with assms(1) show ?thesis
    by (simp add: index_ok_def)
qed

lemma index_ok_append:
  assumes "index_ok ti out" and "ti t = None"
  shows "index_ok (ti(t \<mapsto> length out)) (out @ [\<lparr>token = t, roam = r, zotero = zs\<rparr>])"
  unfolding index_ok_def
proof (rule conjI; intro allI impI)
  fix t' i
  assume h: "(ti(t \<mapsto> length out)) t' = Some i"
  show "i < length (out @ [\<lparr>token = t, roam = r, zotero = zs\<rparr>]) \<and>
        token ((out @ [\<lparr>token = t, roam = r, zotero = zs\<rparr>]) ! i) = t'"
  proof (cases "t' = t")
    case True
    with h have "i = length out" by simp
    with True show ?thesis by simp
  next
    case False
    with h have "ti t' = Some i" by simp
    with assms(1) have "i < length out" "token (out ! i) = t'"
      unfolding index_ok_def by blast+
    then show ?thesis by (simp add: nth_append)
  qed
next
  fix j
  assume "j < length (out @ [\<lparr>token = t, roam = r, zotero = zs\<rparr>])"
  then consider "j < length out" | "j = length out" by fastforce
  then show "(ti(t \<mapsto> length out)) (token ((out @ [\<lparr>token = t, roam = r, zotero = zs\<rparr>]) ! j)) = Some j"
  proof cases
    case 1
    with assms(1) have "ti (token (out ! j)) = Some j" by (simp add: index_ok_def)
    with assms(2) have "token (out ! j) \<noteq> t" by auto
    with 1 \<open>ti (token (out ! j)) = Some j\<close> show ?thesis by (simp add: nth_append)
  next
    case 2
    then show ?thesis by simp
  qed
qed

lemma tag_loop_new:
  "ti (toLowerCase elem) = None \<Longrightarrow>
   tag_loop tagMap (elem # rest) ti out =
     tag_loop tagMap rest (ti(toLowerCase elem \<mapsto> length out))
       (out @ [\<lparr>token = toLowerCase elem, roam = [], zotero = [tagMap elem]\<rparr>])"
  by (simp add: Let_def)

lemma tag_loop_existing:
  "ti (toLowerCase elem) = Some i \<Longrightarrow> i < length out \<Longrightarrow>
   tag_loop tagMap (elem # rest) ti out =
     tag_loop tagMap rest ti (out[i := (out ! i)\<lparr>zotero := zotero (out ! i) @ [tagMap elem]\<rparr>])"
  by (simp add: Let_def)

lemma tag_loop_ok:
  "index_ok ti out \<Longrightarrow> \<exists>ti' out'. tag_loop tagMap ts ti out = Inr (ti', out') \<and> index_ok ti' out'"
proof (induction ts arbitrary: ti out)
  case Nil
  then show ?case by simp
next
  case (Cons elem rest)
  show ?case
  proof (cases "ti (toLowerCase elem)")
    case None
    from index_ok_append [OF Cons.prems None]
    have "index_ok (ti(toLowerCase elem \<mapsto> length out))
            (out @ [\<lparr>token = toLowerCase elem, roam = [], zotero = [tagMap elem]\<rparr>])" .
    from Cons.IH [OF this] show ?thesis
      unfolding tag_loop_new [of ti elem tagMap rest out, OF None] .
  next
    case (Some i)
    with Cons.prems have i: "i < length out" by (simp add: index_ok_def)
    from index_ok_update [OF Cons.prems Some]
    have "index_ok ti (out[i := (out ! i)\<lparr>zotero := zotero (out ! i) @ [tagMap elem]\<rparr>])" .
    from Cons.IH [OF this] show ?thesis
      unfolding tag_loop_existing [of ti elem i out tagMap rest, OF Some i] .
  qed
qed

lemma tag_loop_index_ok:
  assumes "index_ok ti out" and "tag_loop tagMap ts ti out = Inr (ti', out')"
  shows "index_ok ti' out'"
  using tag_loop_ok [OF assms(1), of tagMap ts] assms(2) by auto

lemma tag_loop_append:
  "tag_loop tagMap (xs @ ys) ti out =
     (case tag_loop tagMap xs ti out of Inl e \<Rightarrow> Inl e | Inr (ti', out') \<Rightarrow> tag_loop tagMap ys ti' out')"
  by (induction xs arbitrary: ti out) (simp_all add: Let_def split: option.splits)

lemma index_ok_unique:
  assumes "index_ok ti out" and "i < length out"
  shows "length (filter (\<lambda>e. token e = token (out ! i)) out) = 1"
proof -
  have inj: "j = k" if "j < length out" "k < length out" "token (out ! j) = token (out ! k)" for j k
    using assms(1) that unfolding index_ok_def by (metis option.inject)
  have "distinct (map token out)"
    unfolding distinct_conv_nth using inj by auto
  then have "length (filter (\<lambda>x. x = token (out ! i)) (map token out)) =
               card ({x. x = token (out ! i)} \<inter> set (map token out))"
    by (rule distinct_length_filter)
  moreover have "{x. x = token (out ! i)} \<inter> set (map token out) = {token (out ! i)}"
    using assms(2) by auto
  moreover have "length (filter (\<lambda>x. x = t) (map token out)) = length (filter (\<lambda>e. token e = t) out)" for t
    by (induction out) auto
  ultimately show ?thesis by simp
qed

text \<open>
  C3. The tokens "AI", "ai", "ML" give an index of exactly two entries, whatever order the
  locale's comparison sorts them in: the entry of "ai" with the two source references of
  "AI" and "ai", and the entry of "ml" with the one source reference of "ML".
\<close>

theorem tag_index_example:
  "\<exists>out. categorizeZoteroTags localeCompare tagMap [''AI'', ''ai'', ''ML''] = Inr out \<and>
     mset (map (\<lambda>e. (token e, roam e, mset (zotero e))) out) =
       {#(''ai'', [], {#tagMap ''AI'', tagMap ''ai''#}), (''ml'', [], {#tagMap ''ML''#})#}"
  by (simp add: categorizeZoteroTags_def toLowerCase_examples Let_def)

text \<open>
  C5. Take the index the loop has built from any tokens, and a token whose lower-case form
  already has an entry there. Merging the token leaves the Map and the number of entries
  as they are, appends the token's source reference to that entry, and the index then has
  exactly one entry for the lower-case form.
\<close>

theorem tag_merge_existing:
  assumes "tag_loop tagMap ts Map.empty [] = Inr (ti, out)"
    and "toLowerCase t \<in> token ` set out"
  shows "\<exists>i < length out. token (out ! i) = toLowerCase t \<and>
           tag_loop tagMap (ts @ [t]) Map.empty [] =
             Inr (ti, out[i := (out ! i)\<lparr>zotero := zotero (out ! i) @ [tagMap t]\<rparr>]) \<and>
           length (filter (\<lambda>e. token e = toLowerCase t)
                     (out[i := (out ! i)\<lparr>zotero := zotero (out ! i) @ [tagMap t]\<rparr>])) = 1"
proof -
  have ok: "index_ok ti out"
    by (rule tag_loop_index_ok [OF index_ok_empty assms(1)])
  from assms(2) obtain e where e: "e \<in> set out" "token e = toLowerCase t"
    by force
  from e(1) obtain j where "j < length out" "out ! j = e"
    unfolding in_set_conv_nth by auto
  with e(2) have j: "j < length out" "token (out ! j) = toLowerCase t"
    by simp_all
  from ok j(1) have "ti (token (out ! j)) = Some j"
    unfolding index_ok_def by simp
  with j(2) have look: "ti (toLowerCase t) = Some j" by simp
  let ?out' = "out[j := (out ! j)\<lparr>zotero := zotero (out ! j) @ [tagMap t]\<rparr>]"
  have run: "tag_loop tagMap (ts @ [t]) Map.empty [] = Inr (ti, ?out')"
    using assms(1) look j(1) by (simp add: tag_loop_append Let_def)
  have ok': "index_ok ti ?out'" by (rule index_ok_update [OF ok look])
  have "length (filter (\<lambda>e. token e = token (?out' ! j)) ?out') = 1"
    using index_ok_unique [OF ok', of j] j(1) by simp
  moreover have "token (?out' ! j) = toLowerCase t" using j by simp
  ultimately show ?thesis using j run by auto
qed

text \<open>
  C5, at concrete inputs: the index built from "AI" and "ML", each token being its own
  source reference, and then the token "ai". The entry of "ai" gets the second reference
  and the index keeps its two entries.
\<close>

theorem tag_merge_existing_witness:
  "(case tag_loop (\<lambda>s. s) [''AI'', ''ML'', ''ai''] Map.empty [] of
      Inl e \<Rightarrow> []
    | Inr (tokenIndex, output) \<Rightarrow> output) =
     [\<lparr>token = ''ai'', roam = [] :: unit list, zotero = [''AI'', ''ai'']\<rparr>,
      \<lparr>token = ''ml'', roam = [], zotero = [''ML'']\<rparr>]"
proof -
  let ?out = "[\<lparr>token = ''ai'', roam = [] :: unit list, zotero = [''AI'']\<rparr>,
               \<lparr>token = ''ml'', roam = [], zotero = [''ML'']\<rparr>]"
  let ?ti = "[''ai'' \<mapsto> 0 :: nat, ''ml'' \<mapsto> 1]"
  have built: "tag_loop (\<lambda>s. s) [''AI'', ''ML''] Map.empty [] = Inr (?ti, ?out)"
    by (simp add: toLowerCase_examples Let_def)
  have present: "toLowerCase ''ai'' \<in> token ` set ?out"
    by (simp add: toLowerCase_examples)
  from tag_merge_existing [OF built present] obtain i where
    i: "i < length ?out" "token (?out ! i) = toLowerCase ''ai''"
    and run: "tag_loop (\<lambda>s. s) ([''AI'', ''ML''] @ [''ai'']) Map.empty [] =
                Inr (?ti, ?out[i := (?out ! i)\<lparr>zotero := zotero (?out ! i) @ [''ai'']\<rparr>])"
    by blast
  from i have "i = 0"
    by (cases i) (simp_all add: toLowerCase_examples)
  with run show ?thesis by simp
qed

section \<open>Properties of the Delta Merger\<close>

text \<open>
  Without the deletion, the positions before and after the filter are the same and the
  modified item replaces the old one in place.
\<close>

lemma merge_example_without_deletion:
  "matchWithCurrentData \<lparr>modified = Some [B2, C1], deleted = None\<rparr> (Some [Some A1, Some B1]) =
     [Some A1, Some B2, Some C1]"
  by (simp add: matchWithCurrentData_def array_set_def A1_def B1_def B2_def C1_def)

text \<open>
  C1, the spec's example scenario on the source function: the snapshot holds A@v1 and
  B@v1, the delta modifies B to v2, adds C@v1 and deletes A. The position recorded for B
  is its position in the array before the filter (1), the write goes to that position of
  the array after the filter, where B is at 0: the result keeps B@v1 and holds the key B
  twice.
\<close>

theorem merge_example_keeps_stale_item:
  "matchWithCurrentData \<lparr>modified = Some [B2, C1], deleted = Some [''A'']\<rparr> (Some [Some A1, Some B1]) =
     [Some B1, Some B2, Some C1]"
  by (simp add: matchWithCurrentData_def array_set_def A1_def B1_def B2_def C1_def)

text \<open>
  C4, two deltas on disjoint keys: one modifies B and deletes A, the other adds C. Merged
  in one order the result holds C@v1, merged in the other order C@v1 is overwritten and
  lost.
\<close>

theorem merge_order_changes_items:
  "matchWithCurrentData \<lparr>modified = Some [C1], deleted = None\<rparr>
     (Some (matchWithCurrentData \<lparr>modified = Some [B2], deleted = Some [''A'']\<rparr>
        (Some [Some A1, Some B1]))) = [Some B1, Some B2, Some C1] \<and>
   matchWithCurrentData \<lparr>modified = Some [B2], deleted = Some [''A'']\<rparr>
     (Some (matchWithCurrentData \<lparr>modified = Some [C1], deleted = None\<rparr>
        (Some [Some A1, Some B1]))) = [Some B1, Some B2]"
  by (simp add: matchWithCurrentData_def array_set_def A1_def B1_def B2_def C1_def)

text \<open>
  C7, as the spec states it, fails: a delta computed against generation 1 is merged into a
  snapshot of generation 5 without a VersionConflict.
\<close>

theorem merge_stale_base_counterexample:
  "stale_base \<lparr>items = [Some A1, Some B1], generation = 5\<rparr>
     \<lparr>modified = Some [B2], deleted = None, base_generation = 1\<rparr> \<and>
   merge \<lparr>items = [Some A1, Some B1], generation = 5\<rparr>
     \<lparr>modified = Some [B2], deleted = None, base_generation = 1\<rparr> = Inr [Some A1, Some B2]"
  by (simp add: stale_base_def merge_def matchWithCurrentData_def array_set_def A1_def B1_def B2_def)

text \<open>
  C7, amended. The merge has no failure path: for every snapshot and every delta,
  whatever their generations, it returns the array computed from the snapshot's items and
  the delta's modified and deleted lists alone.
\<close>

theorem merge_never_conflicts:
  "merge s d =
     Inr (matchWithCurrentData \<lparr>modified = modified d, deleted = deleted d\<rparr> (Some (items s)))"
  by (simp add: merge_def matchWithCurrentData_def)

section \<open>Properties of the Paginator\<close>

lemma in_flight_append: "in_flight (xs @ ys) = in_flight xs + in_flight ys"
proof (induction xs)
  case Nil
  then show ?case by simp
next
  case (Cons e es)
  then show ?case by (cases e) simp_all
qed

lemma in_flight_Issue: "in_flight (map Issue l) = int (length l)"
  by (induction l) simp_all

lemma in_flight_Settle: "in_flight (map Settle l) = - int (length l)"
  by (induction l) simp_all

lemma settle_all_trace:
  "\<exists>m \<le> length ss. snd (settle_all get ss vals tr) = tr @ map Settle (take m ss) \<and>
      (\<forall>v. fst (settle_all get ss vals tr) = Inr v \<longrightarrow> m = length ss)"
proof (induction ss arbitrary: vals tr)
  case Nil
  then show ?case by simp
next
  case (Cons s ss)
  show ?case
  proof (cases "get s")
    case (Inl e)
    then have "snd (settle_all get (s # ss) vals tr) = tr @ map Settle (take (Suc 0) (s # ss))"
      and "\<forall>v. fst (settle_all get (s # ss) vals tr) \<noteq> Inr v"
      by simp_all
    then show ?thesis
      by (intro exI [of _ "Suc 0"]) simp
  next
    case (Inr v)
    from Cons.IH [of "vals(s \<mapsto> v)" "tr @ [Settle s]"] obtain m where
      m: "m \<le> length ss"
      "snd (settle_all get ss (vals(s \<mapsto> v)) (tr @ [Settle s])) = (tr @ [Settle s]) @ map Settle (take m ss)"
      "\<forall>w. fst (settle_all get ss (vals(s \<mapsto> v)) (tr @ [Settle s])) = Inr w \<longrightarrow> m = length ss"
      by blast
    with Inr show ?thesis
      by (intro exI [of _ "Suc m"]) simp
  qed
qed

lemma settle_all_fulfilled:
  "fst (settle_all get ss vals tr) = Inr vals' \<Longrightarrow> s \<in> set ss \<Longrightarrow> \<exists>p. get s = Inr p"
proof (induction ss arbitrary: vals tr)
  case Nil
  then show ?case by simp
next
  case (Cons a ss)
  then show ?case
    by (cases "get a") (auto split: if_splits)
qed

lemma settle_all_values:
  "\<forall>s \<in> set ss. get s = Inr (pg s) \<Longrightarrow>
   fst (settle_all get ss vals tr) = Inr (\<lambda>s. if s \<in> set ss then Some (pg s) else vals s)"
proof (induction ss arbitrary: vals tr)
  case Nil
  then show ?case by simp
next
  case (Cons a ss)
  have "(\<lambda>s. if s \<in> set ss then Some (pg s) else (vals(a \<mapsto> pg a)) s) =
        (\<lambda>s. if s \<in> set (a # ss) then Some (pg s) else vals s)"
    by (rule ext) simp
  with Cons show ?case by simp
qed

lemma map_filter_all:
  "\<forall>s \<in> set batch. values s = Some (pg s) \<Longrightarrow> List.map_filter values batch = map pg batch"
  by (induction batch) (simp_all add: List.map_filter_simps)

lemma Promise_all_values:
  assumes "\<forall>s \<in> set batch. get s = Inr (pg s)"
  shows "fst (Promise_all latency get batch tr) = Inr (map pg batch)"
proof -
  let ?arr = "sort_key latency batch"
  let ?filled = "\<lambda>s. if s \<in> set ?arr then Some (pg s) else Map.empty s"
  obtain r tr' where S: "settle_all get ?arr Map.empty tr = (r, tr')"
    by (cases "settle_all get ?arr Map.empty tr")
  from assms have "\<forall>s \<in> set ?arr. get s = Inr (pg s)" by simp
  then have "fst (settle_all get ?arr Map.empty tr) = Inr ?filled"
    by (rule settle_all_values)
  with S have r: "r = Inr ?filled" by simp
  have "List.map_filter ?filled batch = map pg batch"
    by (rule map_filter_all) simp
  with S r show ?thesis
    by (simp add: Promise_all_def)
qed

lemma Promise_all_fulfilled:
  assumes "fst (Promise_all latency get batch tr) = Inr vs" and "s \<in> set batch"
  shows "\<exists>p. get s = Inr p"
proof -
  from assms(1) obtain vals where "fst (settle_all get (sort_key latency batch) Map.empty tr) = Inr vals"
    by (auto simp: Promise_all_def split: prod.splits sum.splits)
  moreover from assms(2) have "s \<in> set (sort_key latency batch)" by simp
  ultimately show ?thesis by (rule settle_all_fulfilled)
qed

lemma Promise_all_trace:
  "\<exists>m \<le> length batch.
      snd (Promise_all latency get batch tr) = tr @ map Settle (take m (sort_key latency batch)) \<and>
      (\<forall>vs. fst (Promise_all latency get batch tr) = Inr vs \<longrightarrow> m = length batch)"
proof -
  from settle_all_trace [of "sort_key latency batch" get Map.empty tr]
  obtain m where "m \<le> length (sort_key latency batch)"
    "snd (settle_all get (sort_key latency batch) Map.empty tr) = tr @ map Settle (take m (sort_key latency batch))"
    "\<forall>v. fst (settle_all get (sort_key latency batch) Map.empty tr) = Inr v \<longrightarrow> m = length (sort_key latency batch)"
    by blast
  then show ?thesis
    by (intro exI [of _ m]) (auto simp: Promise_all_def split: prod.splits sum.splits)
qed

lemma batch_within_limit:
  assumes lim: "\<forall>k. in_flight (take k tr) \<le> 5" and zero: "in_flight tr = 0"
    and len: "length batch \<le> 5" "length arr = length batch" "m \<le> length arr"
  shows "\<forall>k. in_flight (take k ((tr @ map Issue batch) @ map Settle (take m arr))) \<le> 5"
    and "m = length arr \<Longrightarrow> in_flight ((tr @ map Issue batch) @ map Settle (take m arr)) = 0"
proof -
  show "\<forall>k. in_flight (take k ((tr @ map Issue batch) @ map Settle (take m arr))) \<le> 5"
  proof
    fix k
    show "in_flight (take k ((tr @ map Issue batch) @ map Settle (take m arr))) \<le> 5"
    proof (cases "k \<le> length tr")
      case True
      with lim show ?thesis by simp
    next
      case False
      then have "take k tr = tr" by simp
      then have "in_flight (take k ((tr @ map Issue batch) @ map Settle (take m arr))) =
            in_flight tr + int (length (take (k - length tr) batch))
              - int (length (take (k - length tr - length batch) (take m arr)))"
        by (simp add: in_flight_append take_map in_flight_Issue in_flight_Settle)
      moreover have "int (length (take (k - length tr) batch)) \<le> 5"
        using len(1) by simp
      moreover have "0 \<le> int (length (take (k - length tr - length batch) (take m arr)))"
        by simp
      ultimately show ?thesis using zero by linarith
    qed
  qed
  show "in_flight ((tr @ map Issue batch) @ map Settle (take m arr)) = 0" if "m = length arr"
    using that zero len(2) by (simp add: in_flight_append in_flight_Issue in_flight_Settle)
qed

lemma batch_length:
  "length (map (\<lambda>j. 100 * (j + 1)) [i ..< min (i + CONCURRENCY_LIMIT) n]) \<le> 5"
  by (simp add: CONCURRENCY_LIMIT_def)

lemma fetch_loop_within_limit:
  "\<forall>k. in_flight (take k tr) \<le> 5 \<Longrightarrow> in_flight tr = 0 \<Longrightarrow>
   \<forall>k. in_flight (take k (snd (fetch_loop latency get n i results tr))) \<le> 5"
proof (induction latency get n i results tr rule: fetch_loop.induct)
  case (1 latency get n i results tr)
  show ?case
  proof (cases "i < n")
    case False
    with "1.prems" show ?thesis by simp
  next
    case True
    let ?batch = "map (\<lambda>j. 100 * (j + 1)) [i ..< min (i + CONCURRENCY_LIMIT) n]"
    let ?arr = "sort_key latency ?batch"
    obtain r tr' where P: "Promise_all latency get ?batch (tr @ map Issue ?batch) = (r, tr')"
      by (cases "Promise_all latency get ?batch (tr @ map Issue ?batch)")
    from Promise_all_trace [of ?batch latency get "tr @ map Issue ?batch"] P
    obtain m where m: "m \<le> length ?batch"
      "tr' = (tr @ map Issue ?batch) @ map Settle (take m ?arr)"
      "\<forall>vs. r = Inr vs \<longrightarrow> m = length ?batch"
      by auto
    have la: "length ?arr = length ?batch" by simp
    from m(1) la have ma: "m \<le> length ?arr" by simp
    have lim': "\<forall>k. in_flight (take k tr') \<le> 5"
      unfolding m(2) by (rule batch_within_limit(1) [OF "1.prems" batch_length la ma])
    show ?thesis
    proof (cases r)
      case (Inl e)
      with True P lim' show ?thesis by (simp add: Let_def)
    next
      case (Inr batchResults)
      with m(3) la have "m = length ?arr" by simp
      then have zero': "in_flight tr' = 0"
        unfolding m(2) by (rule batch_within_limit(2) [OF "1.prems" batch_length la ma])
      have "\<forall>k. in_flight (take k (snd (fetch_loop latency get n (i + CONCURRENCY_LIMIT)
                  (results @ concat batchResults) tr'))) \<le> 5"
        using "1.IH" [OF True refl P [symmetric, unfolded Inr] refl lim' zero'] .
      with True P Inr show ?thesis by (simp add: Let_def)
    qed
  qed
qed


lemma upt_batch_split:
  "i < n \<Longrightarrow> [i ..< n] = [i ..< min (i + CONCURRENCY_LIMIT) n] @ [i + CONCURRENCY_LIMIT ..< n]"
proof (cases "i + CONCURRENCY_LIMIT \<le> n")
  case True
  moreover assume "i < n"
  ultimately show ?thesis
    using upt_add_eq_append [of i "i + CONCURRENCY_LIMIT" "n - (i + CONCURRENCY_LIMIT)"]
    by (simp add: min_def)
next
  case False
  then show ?thesis by (simp add: min_def)
qed

lemma fetch_loop_results:
  "\<forall>j. i \<le> j \<and> j < n \<longrightarrow> get (100 * (j + 1)) = Inr (page j) \<Longrightarrow>
   fst (fetch_loop latency get n i results tr) = Inr (results @ concat (map page [i ..< n]))"
proof (induction latency get n i results tr rule: fetch_loop.induct)
  case (1 latency get n i results tr)
  show ?case
  proof (cases "i < n")
    case False
    then show ?thesis by simp
  next
    case True
    let ?js = "[i ..< min (i + CONCURRENCY_LIMIT) n]"
    let ?batch = "map (\<lambda>j. 100 * (j + 1)) ?js"
    let ?pg = "\<lambda>s. page (s div 100 - 1)"
    obtain r tr' where P: "Promise_all latency get ?batch (tr @ map Issue ?batch) = (r, tr')"
      by (cases "Promise_all latency get ?batch (tr @ map Issue ?batch)")
    have "\<forall>s \<in> set ?batch. get s = Inr (?pg s)"
      using "1.prems" by auto
    from Promise_all_values [OF this, of latency "tr @ map Issue ?batch"] P
    have r: "r = Inr (map ?pg ?batch)" by simp
    have pages: "map ?pg ?batch = map page ?js" by simp
    have "\<forall>j. i + CONCURRENCY_LIMIT \<le> j \<and> j < n \<longrightarrow> get (100 * (j + 1)) = Inr (page j)"
      using "1.prems" by simp
    from "1.IH" [OF True refl P [symmetric, unfolded r] refl this]
    have "fst (fetch_loop latency get n (i + CONCURRENCY_LIMIT) (results @ concat (map ?pg ?batch)) tr') =
            Inr ((results @ concat (map ?pg ?batch)) @ concat (map page [i + CONCURRENCY_LIMIT ..< n]))" .
    moreover have "fst (fetch_loop latency get n i results tr) =
            fst (fetch_loop latency get n (i + CONCURRENCY_LIMIT) (results @ concat (map ?pg ?batch)) tr')"
      using True P r by (subst fetch_loop.simps) (simp add: Let_def)
    moreover have "concat (map page [i ..< n]) =
            concat (map page ?js) @ concat (map page [i + CONCURRENCY_LIMIT ..< n])"
      by (subst upt_batch_split [OF True]) simp
    ultimately show ?thesis
      by (simp only: pages append_assoc)
  qed
qed

lemma fetch_loop_fulfilled:
  "fst (fetch_loop latency get n i results tr) = Inr xs \<Longrightarrow> i \<le> j \<Longrightarrow> j < n \<Longrightarrow>
   \<exists>p. get (100 * (j + 1)) = Inr p"
proof (induction latency get n i results tr rule: fetch_loop.induct)
  case (1 latency get n i results tr)
  from "1.prems" have True: "i < n" by simp
  let ?js = "[i ..< min (i + CONCURRENCY_LIMIT) n]"
  let ?batch = "map (\<lambda>j. 100 * (j + 1)) ?js"
  obtain r tr' where P: "Promise_all latency get ?batch (tr @ map Issue ?batch) = (r, tr')"
    by (cases "Promise_all latency get ?batch (tr @ map Issue ?batch)")
  from "1.prems"(1) True P obtain batchResults where r: "r = Inr batchResults"
    by (subst (asm) fetch_loop.simps) (cases r; simp add: Let_def)
  show ?case
  proof (cases "j < i + CONCURRENCY_LIMIT")
    case near: True
    with "1.prems" have "100 * (j + 1) \<in> set ?batch" by simp
    moreover from P r have "fst (Promise_all latency get ?batch (tr @ map Issue ?batch)) = Inr batchResults"
      by simp
    ultimately show ?thesis by (rule Promise_all_fulfilled [rotated])
  next
    case far: False
    have "fst (fetch_loop latency get n (i + CONCURRENCY_LIMIT) (results @ concat batchResults) tr') = Inr xs"
      using "1.prems"(1) True P r by (subst (asm) fetch_loop.simps) (simp add: Let_def)
    from "1.IH" [OF True refl P [symmetric, unfolded r] refl this] far "1.prems"(3)
    show ?thesis by simp
  qed
qed

text \<open>
  C8. At every moment of a call, at most 5 requests are in flight (the constant
  \<^verbatim>\<open>CONCURRENCY_LIMIT\<close>). The call returns a sequence exactly when every page request
  succeeds, and the sequence is then the pages' data concatenated in page order. The
  sequence a call returns does not depend on the order in which the responses arrive: with
  any other order of arrival the call returns the same sequence.
\<close>

theorem fetchAdditionalData_bounded_and_ordered:
  "(\<forall>k. in_flight (take k (snd (fetchAdditionalData latency get n))) \<le> int CONCURRENCY_LIMIT) \<and>
   CONCURRENCY_LIMIT = 5 \<and>
   (fst (fetchAdditionalData latency get n) = Inr xs \<longleftrightarrow>
      (\<exists>page. (\<forall>j < n. get (100 * (j + 1)) = Inr (page j)) \<and> xs = concat (map page [0 ..< n]))) \<and>
   (fst (fetchAdditionalData latency get n) = Inr xs \<longrightarrow>
      fst (fetchAdditionalData latency' get n) = Inr xs)"
proof -
  have limit: "\<forall>k. in_flight (take k (snd (fetchAdditionalData latency get n))) \<le> int CONCURRENCY_LIMIT"
  proof -
    have "\<forall>k. in_flight (take k (snd (fetch_loop latency get n 0 [] []))) \<le> 5"
      by (rule fetch_loop_within_limit) simp_all
    then show ?thesis
      by (simp add: fetchAdditionalData_def CONCURRENCY_LIMIT_def)
  qed
  have ordered: "fst (fetchAdditionalData l get n) = Inr (concat (map page [0 ..< n]))"
    if "\<forall>j < n. get (100 * (j + 1)) = Inr (page j)" for l page
  proof -
    from that have "\<forall>j. 0 \<le> j \<and> j < n \<longrightarrow> get (100 * (j + 1)) = Inr (page j)" by simp
    from fetch_loop_results [OF this, of l "[]" "[]"] show ?thesis
      by (simp add: fetchAdditionalData_def)
  qed
  have pages: "\<exists>page. (\<forall>j < n. get (100 * (j + 1)) = Inr (page j)) \<and> xs = concat (map page [0 ..< n])"
    if ret: "fst (fetchAdditionalData latency get n) = Inr xs"
  proof -
    define page where "page j = (case get (100 * (j + 1)) of Inr p \<Rightarrow> p | Inl e \<Rightarrow> [])" for j
    have all: "\<forall>j < n. get (100 * (j + 1)) = Inr (page j)"
    proof (intro allI impI)
      fix j assume "j < n"
      with fetch_loop_fulfilled [of latency get n 0 "[]" "[]" xs j] ret
      obtain p where "get (100 * (j + 1)) = Inr p"
        by (auto simp: fetchAdditionalData_def)
      then show "get (100 * (j + 1)) = Inr (page j)" by (simp add: page_def)
    qed
    from ordered [OF all, of latency] ret have "xs = concat (map page [0 ..< n])" by simp
    with all show ?thesis by blast
  qed
  have iff: "fst (fetchAdditionalData latency get n) = Inr xs \<longleftrightarrow>
      (\<exists>page. (\<forall>j < n. get (100 * (j + 1)) = Inr (page j)) \<and> xs = concat (map page [0 ..< n]))"
    using pages ordered [of _ latency] by blast
  have same: "fst (fetchAdditionalData latency get n) = Inr xs \<longrightarrow>
      fst (fetchAdditionalData latency' get n) = Inr xs"
    using pages ordered [of _ latency'] by blast
  from limit iff same show ?thesis
    by (simp add: CONCURRENCY_LIMIT_def)
qed

text \<open>
  C8, at concrete inputs: seven further pages, the page with \<^verbatim>\<open>start\<close> = \<open>s\<close> holding
  the one item \<open>s\<close>. With the responses of each batch arriving in reverse order, and with
  them arriving in order, the call returns the items in page order.
\<close>

theorem fetchAdditionalData_bounded_and_ordered_witness:
  "fst (fetchAdditionalData (\<lambda>s. 1000 - s) (\<lambda>s. Inr [s]) 7) =
     (Inr [100, 200, 300, 400, 500, 600, 700] :: unit + nat list) \<and>
   fst (fetchAdditionalData (\<lambda>s. s) (\<lambda>s. Inr [s]) 7) =
     (Inr [100, 200, 300, 400, 500, 600, 700] :: unit + nat list)"
proof -
  let ?get = "\<lambda>s. Inr [s] :: unit + nat list"
  let ?page = "\<lambda>j. [100 * (j + 1)] :: nat list"
  let ?xs = "[100, 200, 300, 400, 500, 600, 700] :: nat list"
  have "(\<forall>j < 7. ?get (100 * (j + 1)) = Inr (?page j)) \<and> ?xs = concat (map ?page [0 ..< 7])"
    by (simp add: upt_rec)
  then have pages: "\<exists>page. (\<forall>j < 7. ?get (100 * (j + 1)) = Inr (page j)) \<and>
                       ?xs = concat (map page [0 ..< 7])"
    by (rule exI [of _ ?page])
  from fetchAdditionalData_bounded_and_ordered [of "\<lambda>s. 1000 - s" ?get 7 ?xs "\<lambda>s. s"] pages
  have "fst (fetchAdditionalData (\<lambda>s. 1000 - s) ?get 7) = Inr ?xs"
    and "fst (fetchAdditionalData (\<lambda>s. 1000 - s) ?get 7) = Inr ?xs \<longrightarrow>
         fst (fetchAdditionalData (\<lambda>s. s) ?get 7) = Inr ?xs"
    by blast+
  then show ?thesis by blast
qed

section \<open>Properties of the Sync Coordinator\<close>

lemma step_keeps_cycle:
  "cycle_of st ident = Some c \<Longrightarrow> \<not> completes ident e \<Longrightarrow>
   cycle_of (coordinator_step e st) ident = Some c \<and> fetch_count (coordinator_step e st) ident = fetch_count st ident"
  by (cases e) (auto simp: requestSync_def Let_def split: option.splits)

lemma run_keeps_cycle:
  "cycle_of st ident = Some c \<Longrightarrow> \<forall>e \<in> set es. \<not> completes ident e \<Longrightarrow>
   cycle_of (coordinator_run es st) ident = Some c \<and> fetch_count (coordinator_run es st) ident = fetch_count st ident"
proof (induction es arbitrary: st)
  case Nil
  then show ?case by simp
next
  case (Cons e es)
  from Cons.prems have "cycle_of (coordinator_step e st) ident = Some c"
    and fc: "fetch_count (coordinator_step e st) ident = fetch_count st ident"
    using step_keeps_cycle [of st ident c e] by simp_all
  with Cons.IH [of "coordinator_step e st"] Cons.prems(2) show ?case by simp
qed

text \<open>
  C9. Take an identity with no cycle in progress and no fresh snapshot in the cache, a first
  call of \<^verbatim>\<open>requestSync\<close> for it, then any events that do not end its cycle (calls and
  cycles of other identities, further calls for this one, progress of its own cycle), then
  a second call. The second call gets the cycle of the first, exactly one fetch cycle has
  been started for the identity, and when that cycle publishes a snapshot, this snapshot is
  the result of the one cycle both calls wait for.
\<close>

theorem requestSync_joins_cycle:
  assumes "cycle_of st ident = None" and "fresh st ident = None"
    and "\<forall>e \<in> set es. \<not> completes ident e"
  shows "fst (requestSync ident (coordinator_run es (snd (requestSync ident st)))) = fst (requestSync ident st) \<and>
         fetch_count (snd (requestSync ident (coordinator_run es (snd (requestSync ident st))))) ident =
           Suc (fetch_count st ident) \<and>
         (phase_of (coordinator_run es (snd (requestSync ident st))) ident = Publishing \<longrightarrow>
            outcome (coordinator_step (Published ident s) (snd (requestSync ident (coordinator_run es (snd (requestSync ident st))))))
              (fst (requestSync ident st)) = Some (Inr s))"
proof -
  let ?h = "fst (requestSync ident st)"
  let ?st1 = "snd (requestSync ident st)"
  let ?st2 = "coordinator_run es ?st1"
  from assms(1,2) have start: "cycle_of ?st1 ident = Some ?h"
    "fetch_count ?st1 ident = Suc (fetch_count st ident)"
    by (simp_all add: requestSync_def Let_def)
  from run_keeps_cycle [OF start(1) assms(3)] start(2)
  have kept: "cycle_of ?st2 ident = Some ?h" "fetch_count ?st2 ident = Suc (fetch_count st ident)"
    by simp_all
  then have join: "requestSync ident ?st2 = (?h, ?st2)"
    by (simp add: requestSync_def)
  with kept show ?thesis by simp
qed

text \<open>
  C9, at concrete inputs: two calls for the library "lib" on an idle coordinator, with a
  call for another library and the fetch and merge of the cycle of "lib" between them.
  Both calls get cycle 0, one fetch cycle was started, and the published snapshot 7 is the
  result of cycle 0.
\<close>

theorem requestSync_joins_cycle_witness:
  "fst (requestSync ''lib'' (coordinator_run [Request ''other'', Fetched ''lib'', Merged ''lib'']
          (snd (requestSync ''lib'' (idle_coordinator :: (string, nat) coordinator))))) = 0 \<and>
   fst (requestSync ''lib'' (idle_coordinator :: (string, nat) coordinator)) = 0 \<and>
   fetch_count (snd (requestSync ''lib'' (coordinator_run [Request ''other'', Fetched ''lib'', Merged ''lib'']
          (snd (requestSync ''lib'' (idle_coordinator :: (string, nat) coordinator)))))) ''lib'' = 1 \<and>
   outcome (coordinator_step (Published ''lib'' 7)
       (snd (requestSync ''lib'' (coordinator_run [Request ''other'', Fetched ''lib'', Merged ''lib'']
          (snd (requestSync ''lib'' (idle_coordinator :: (string, nat) coordinator))))))) 0 =
     Some (Inr 7)"
proof -
  let ?st = "idle_coordinator :: (string, nat) coordinator"
  let ?es = "[Request ''other'', Fetched ''lib'', Merged ''lib''] :: (string, nat) sync_event list"
  have idle: "cycle_of ?st ''lib'' = None" "fresh ?st ''lib'' = None"
    by (simp_all add: idle_coordinator_def)
  have between: "\<forall>e \<in> set ?es. \<not> completes ''lib'' e"
    by simp
  have first: "fst (requestSync ''lib'' ?st) = 0"
    by (simp add: requestSync_def idle_coordinator_def)
  have phase: "phase_of (coordinator_run ?es (snd (requestSync ''lib'' ?st))) ''lib'' = Publishing"
    by (simp add: requestSync_def idle_coordinator_def)
  have zero: "fetch_count ?st ''lib'' = 0"
    by (simp add: idle_coordinator_def)
  from requestSync_joins_cycle [OF idle between, of 7] phase
  have "fst (requestSync ''lib'' (coordinator_run ?es (snd (requestSync ''lib'' ?st)))) =
          fst (requestSync ''lib'' ?st)"
    and "fetch_count (snd (requestSync ''lib'' (coordinator_run ?es (snd (requestSync ''lib'' ?st)))))
           ''lib'' = Suc (fetch_count ?st ''lib'')"
    and "outcome (coordinator_step (Published ''lib'' 7)
           (snd (requestSync ''lib'' (coordinator_run ?es (snd (requestSync ''lib'' ?st))))))
           (fst (requestSync ''lib'' ?st)) = Some (Inr 7)"
    by blast+
  with first zero show ?thesis by simp
qed

end
